theory Spec2Isabelle
  imports Complex_Main
begin

section \<open>Configuration (snake.py, lines 8-11 and 111)\<close>

type_synonym cell = "int \<times> int"

definition WIDTH :: int where "WIDTH = 800"
definition HEIGHT :: int where "HEIGHT = 600"
definition CELL_SIZE :: int where "CELL_SIZE = 20"
definition DEAD_ZONE :: int where "DEAD_ZONE = 150"
definition joy_center_x :: int where "joy_center_x = 512"
definition joy_center_y :: int where "joy_center_y = 512"

section \<open>Entity placement: \<open>random_food_position\<close> (lines 81-87)\<close>

text \<open>
  The random source is a sequence of draws read at an index. One element is the pair
  \<open>(x, y)\<close> produced by the two calls of \<open>random.randint\<close> of one loop iteration.
  The \<open>while True\<close> loop has no other exit than its \<open>return\<close>, so it is a partial
  function: \<open>None\<close> means that the loop never returns. On return the position is
  paired with the index of the next unread draw.
\<close>

partial_function (option) random_food_position ::
  "cell list \<Rightarrow> cell list \<Rightarrow> (nat \<Rightarrow> int \<times> int) \<Rightarrow> nat \<Rightarrow> (cell \<times> nat) option" where
  "random_food_position sn obs rng i =
     (let x = fst (rng i);
          y = snd (rng i);
          pos = (x * CELL_SIZE, y * CELL_SIZE)
      in if pos \<notin> set sn \<and> pos \<notin> set obs then Some (pos, Suc i)
         else random_food_position sn obs rng (Suc i))"

text \<open>The contract of \<open>random.randint(0, WIDTH // CELL_SIZE - 1)\<close> and of its
  sibling for the rows: every draw lies in the closed range.\<close>

definition randint_range :: "(nat \<Rightarrow> int \<times> int) \<Rightarrow> bool" where
  "randint_range rng =
     (\<forall>i. 0 \<le> fst (rng i) \<and> fst (rng i) \<le> WIDTH div CELL_SIZE - 1 \<and>
          0 \<le> snd (rng i) \<and> snd (rng i) \<le> HEIGHT div CELL_SIZE - 1)"



text \<open>The cell that draw \<open>i\<close> denotes, and whether it is free.\<close>

definition drawn_cell :: "(nat \<Rightarrow> int \<times> int) \<Rightarrow> nat \<Rightarrow> cell" where
  "drawn_cell rng i = (fst (rng i) * CELL_SIZE, snd (rng i) * CELL_SIZE)"

definition free_cell :: "cell list \<Rightarrow> cell list \<Rightarrow> cell \<Rightarrow> bool" where
  "free_cell sn obs pos = (pos \<notin> set sn \<and> pos \<notin> set obs)"

definition cell_aligned :: "cell \<Rightarrow> bool" where
  "cell_aligned pos = (fst pos mod CELL_SIZE = 0 \<and> snd pos mod CELL_SIZE = 0)"

definition in_bounds :: "cell \<Rightarrow> bool" where
  "in_bounds pos = (0 \<le> fst pos \<and> fst pos < WIDTH \<and> 0 \<le> snd pos \<and> snd pos < HEIGHT)"


declare random_food_position.simps [code]

section \<open>Game state (module-level variables, lines 58-63 and 95-108)\<close>

datatype food_kind = Normal | Power

text \<open>
  \<open>FPS\<close> starts as the integer 7 and becomes a float after \<open>FPS += 0.5\<close>; every value
  it takes is a multiple of one half, which binary floating point represents exactly, so
  it is modelled as a rational. The \<open>particles\<close> list is cosmetic and left out.
\<close>

record game =
  snake :: "cell list"
  direction :: "int \<times> int"
  food_pos :: cell
  food_type :: food_kind
  score :: int
  game_over :: bool
  paused :: bool
  show_grid :: bool
  level :: int
  obstacles :: "cell list"
  powerup_active :: bool
  powerup_timer :: int
  FPS :: rat
  high_score :: int

text \<open>The values assigned at lines 96-107, for a drawn food position \<open>p\<close> and the high
  score \<open>hs\<close> read from the file.\<close>

definition new_game :: "cell \<Rightarrow> int \<Rightarrow> game" where
  "new_game p hs =
     \<lparr>snake = [(WIDTH div 2, HEIGHT div 2)], direction = (0, 0), food_pos = p,
      food_type = Normal, score = 0, game_over = False, paused = False, show_grid = True,
      level = 1, obstacles = [], powerup_active = False, powerup_timer = 0, FPS = 7,
      high_score = hs\<rparr>"

text \<open>\<open>save_high_score\<close> (lines 65-70); the file write is not modelled.\<close>

definition save_high_score :: "game \<Rightarrow> int \<Rightarrow> game" where
  "save_high_score s sc = (if sc > high_score s then s\<lparr>high_score := sc\<rparr> else s)"

section \<open>Input adapter: \<open>get_direction\<close> (lines 113-158)\<close>

text \<open>
  The joystick branch reaches the frame only through library calls:
  \<open>ser.readline().decode().strip()\<close>, \<open>data.split(',')\<close> and \<open>int\<close> on the first three
  fields. They are Python built-ins, not code of this repository, so one read is given by
  what they yield, for any bytes on the wire and any interpreter:
  \<^item> \<open>Undecodable\<close>: \<open>decode\<close> raises UnicodeDecodeError;
  \<^item> \<open>Empty_Read\<close>: the decoded and stripped text \<open>data\<close> is empty (a timeout or a blank line);
  \<^item> \<open>Fields vals\<close>: \<open>data\<close> is not empty and \<open>vals\<close> lists, for each element of
    \<open>data.split(',')\<close> in order, what \<open>int\<close> does on it: raise ValueError
    (\<open>Not_Integer\<close>) or return an integer.
  \<open>pressed\<close> is the snapshot of \<open>pygame.key.get_pressed()\<close>.
\<close>

datatype field = Not_Integer | Integer int

datatype serial_read = Undecodable | Empty_Read | Fields "field list"

record pressed =
  K_LEFT :: bool
  K_RIGHT :: bool
  K_UP :: bool
  K_DOWN :: bool
  K_p :: bool
  K_r :: bool
  K_SPACE :: bool

text \<open>Lines 129-139: dead zone, then no diagonals.\<close>

definition joystick_vector :: "int \<Rightarrow> int \<Rightarrow> int \<times> int" where
  "joystick_vector joyX joyY =
     (let dx = (if \<bar>joyX\<bar> > DEAD_ZONE then (if joyX > 0 then 1 else -1) else 0);
          dy = (if \<bar>joyY\<bar> > DEAD_ZONE then (if joyY > 0 then 1 else -1) else 0);
          dy = (if dx \<noteq> 0 then 0 else dy)
      in (dx, dy))"

text \<open>
  \<open>get_direction\<close> returns the candidate direction and the state, in which only
  \<open>paused\<close> may have been flipped. The first argument is \<open>None\<close> when \<open>ser\<close> is
  \<open>None\<close> (keyboard fallback) and the result of the read otherwise. The three \<open>int\<close>
  calls run in order at lines 121-123, before the button is looked at; a ValueError of
  any of them and the UnicodeDecodeError are caught at line 142 and lead to line 144.
\<close>

definition get_direction :: "serial_read option \<Rightarrow> pressed \<Rightarrow> game \<Rightarrow> (int \<times> int) \<times> game" where
  "get_direction ser keys s =
     (case ser of
        Some Undecodable \<Rightarrow> (direction s, s)
      | Some Empty_Read \<Rightarrow> (direction s, s)
      | Some (Fields vals) \<Rightarrow>
          if length vals = 3 then
            (case vals ! 0 of
               Not_Integer \<Rightarrow> (direction s, s)
             | Integer vx \<Rightarrow>
            (case vals ! 1 of
               Not_Integer \<Rightarrow> (direction s, s)
             | Integer vy \<Rightarrow>
            (case vals ! 2 of
               Not_Integer \<Rightarrow> (direction s, s)
             | Integer button \<Rightarrow>
                 (let joyX = vx - joy_center_x;
                      joyY = vy - joy_center_y;
                      s' = (if button = 0 then s\<lparr>paused := \<not> paused s\<rparr> else s)
                  in (joystick_vector joyX joyY, s')))))
          else (direction s, s)
      | None \<Rightarrow>
          (let d = (if K_LEFT keys then (-1, 0)
                    else if K_RIGHT keys then (1, 0)
                    else if K_UP keys then (0, -1)
                    else if K_DOWN keys then (0, 1)
                    else direction s);
               s' = (if K_p keys then s\<lparr>paused := \<not> paused s\<rparr> else s)
           in (d, s')))"

text \<open>A malformed frame in the words of the specification: an empty read, a wrong field
  count, or a field that is not an integer; a read that does not decode is counted too.\<close>

definition malformed :: "serial_read \<Rightarrow> bool" where
  "malformed r =
     (case r of
        Undecodable \<Rightarrow> True
      | Empty_Read \<Rightarrow> True
      | Fields vals \<Rightarrow> length vals \<noteq> 3 \<or> Not_Integer \<in> set vals)"

section \<open>The state machine (lines 211-274)\<close>

text \<open>Lines 213-215: the anti-reversal filter.\<close>

definition update_direction :: "int \<times> int \<Rightarrow> int \<times> int \<Rightarrow> int \<times> int" where
  "update_direction cur new_dir =
     (if (fst new_dir * -1, snd new_dir * -1) \<noteq> cur \<and> new_dir \<noteq> (0, 0) then new_dir else cur)"

definition negated :: "int \<times> int \<Rightarrow> int \<times> int" where
  "negated d = (- fst d, - snd d)"

text \<open>The directions held after each candidate of a sequence, the starting one first.\<close>

fun directions :: "int \<times> int \<Rightarrow> (int \<times> int) list \<Rightarrow> (int \<times> int) list" where
  "directions d [] = [d]"
| "directions d (c # cs) = d # directions (update_direction d c) cs"

text \<open>Lines 218-219.\<close>

definition advance :: "cell \<Rightarrow> int \<times> int \<Rightarrow> cell" where
  "advance h d = (fst h + fst d * CELL_SIZE, snd h + snd d * CELL_SIZE)"

text \<open>Lines 222-223 and 229: the two collision tests.\<close>

definition wall_collision :: "cell \<Rightarrow> bool" where
  "wall_collision h = (fst h < 0 \<or> fst h \<ge> WIDTH \<or> snd h < 0 \<or> snd h \<ge> HEIGHT)"

definition body_collision :: "game \<Rightarrow> cell \<Rightarrow> bool" where
  "body_collision s h = (\<not> powerup_active s \<and> (h \<in> set (snake s) \<or> h \<in> set (obstacles s)))"

text \<open>Lines 221-232: both tests only set the flag.\<close>

definition collide :: "cell \<Rightarrow> game \<Rightarrow> game" where
  "collide h s =
     (let s1 = (if wall_collision h then s\<lparr>game_over := True\<rparr> else s)
      in if body_collision s1 h then s1\<lparr>game_over := True\<rparr> else s1)"

text \<open>
  Lines 237-259, after the new head was inserted. \<open>roll\<close> is the truth value of
  \<open>random.random() < 0.1\<close>. The result carries the index of the next unread draw.
\<close>

definition eat_food :: "cell \<Rightarrow> (nat \<Rightarrow> int \<times> int) \<Rightarrow> bool \<Rightarrow> game \<Rightarrow> (game \<times> nat) option" where
  "eat_food new_head rng roll s =
     (if new_head = food_pos s then
        (let s1 = s\<lparr>score := score s + 1\<rparr>;
             s2 = save_high_score s1 (score s1);
             s3 = (if food_type s2 = Power
                   then s2\<lparr>powerup_active := True, powerup_timer := 105, FPS := 10\<rparr>
                   else s2)
         in case random_food_position (snake s3) (obstacles s3) rng 0 of
              None \<Rightarrow> None
            | Some (p, i) \<Rightarrow>
                Some (s3\<lparr>food_pos := p, food_type := (if roll then Power else Normal)\<rparr>, i))
      else Some (s\<lparr>snake := butlast (snake s)\<rparr>, 0))"

text \<open>Lines 266-267: \<open>n\<close> obstacles, each drawn against the obstacles placed so far.\<close>

fun add_obstacles ::
  "nat \<Rightarrow> cell list \<Rightarrow> cell list \<Rightarrow> (nat \<Rightarrow> int \<times> int) \<Rightarrow> nat \<Rightarrow> (cell list \<times> nat) option" where
  "add_obstacles 0 sn obs rng i = Some (obs, i)"
| "add_obstacles (Suc n) sn obs rng i =
     (case random_food_position sn obs rng i of
        None \<Rightarrow> None
      | Some (p, j) \<Rightarrow> add_obstacles n sn (obs @ [p]) rng j)"

text \<open>Lines 262-267.\<close>

definition level_progression :: "(nat \<Rightarrow> int \<times> int) \<Rightarrow> nat \<Rightarrow> game \<Rightarrow> game option" where
  "level_progression rng i s =
     (if score s div 10 + 1 > level s then
        (let s1 = s\<lparr>level := score s div 10 + 1, FPS := FPS s + 1 / 2\<rparr>
         in case add_obstacles (nat (level s1)) (snake s1) (obstacles s1) rng i of
              None \<Rightarrow> None
            | Some (obs, j) \<Rightarrow> Some (s1\<lparr>obstacles := obs\<rparr>))
      else Some s)"

text \<open>Lines 270-274.\<close>

definition powerup_countdown :: "game \<Rightarrow> game" where
  "powerup_countdown s =
     (if powerup_active s then
        (let s1 = s\<lparr>powerup_timer := powerup_timer s - 1\<rparr>
         in if powerup_timer s1 \<le> 0 then s1\<lparr>powerup_active := False, FPS := 7\<rparr> else s1)
      else s)"

text \<open>What one loop iteration reads from outside.\<close>

datatype event = QUIT | KEYDOWN_g | KEYDOWN_p | KEYDOWN_f | OTHER_EVENT

record input =
  events :: "event list"
  ser_read :: "serial_read option"
  keys :: pressed
  cells :: "nat \<Rightarrow> int \<times> int"
  power_roll :: bool
  restart_cells :: "nat \<Rightarrow> int \<times> int"

datatype stop = SystemExit | IndexError

text \<open>The direction in force after lines 212-215.\<close>

definition next_direction :: "game \<Rightarrow> input \<Rightarrow> int \<times> int" where
  "next_direction s inp =
     update_direction (direction s) (fst (get_direction (ser_read inp) (keys inp) s))"

text \<open>The state on which the collision tests of a tick run: \<open>paused\<close> possibly flipped by
  the poll, and the direction updated.\<close>

definition steered :: "game \<Rightarrow> input \<Rightarrow> game" where
  "steered s inp =
     (snd (get_direction (ser_read inp) (keys inp) s))\<lparr>direction := next_direction s inp\<rparr>"

text \<open>
  One tick, lines 211-274. The outer \<open>None\<close> is a call of \<open>random_food_position\<close> that
  never returns; \<open>snake[0]\<close> on an empty list raises IndexError.
\<close>

definition tick :: "game \<Rightarrow> input \<Rightarrow> (stop + game) option" where
  "tick s inp =
     (if \<not> game_over s then
        (let (new_dir, s1) = get_direction (ser_read inp) (keys inp) s;
             s2 = s1\<lparr>direction := update_direction (direction s1) new_dir\<rparr>
         in if direction s2 \<noteq> (0, 0) then
              (case snake s2 of
                 [] \<Rightarrow> Some (Inl IndexError)
               | h # _ \<Rightarrow>
                   (let new_head = advance h (direction s2);
                        s3 = collide new_head s2;
                        s4 = s3\<lparr>snake := new_head # snake s3\<rparr>
                    in case eat_food new_head (cells inp) (power_roll inp) s4 of
                         None \<Rightarrow> None
                       | Some (s5, i) \<Rightarrow>
                           (case level_progression (cells inp) i s5 of
                              None \<Rightarrow> None
                            | Some s6 \<Rightarrow> Some (Inr (powerup_countdown s6)))))
            else Some (Inr (powerup_countdown s2)))
      else Some (Inr s))"

section \<open>The main loop (lines 172-341)\<close>

text \<open>Lines 190-203. QUIT ends the process; fullscreen is display state only.\<close>

fun handle_events :: "game \<Rightarrow> event list \<Rightarrow> stop + game" where
  "handle_events s [] = Inr s"
| "handle_events s (QUIT # es) = Inl SystemExit"
| "handle_events s (KEYDOWN_g # es) = handle_events (s\<lparr>show_grid := \<not> show_grid s\<rparr>) es"
| "handle_events s (KEYDOWN_p # es) = handle_events (s\<lparr>paused := \<not> paused s\<rparr>) es"
| "handle_events s (KEYDOWN_f # es) = handle_events s es"
| "handle_events s (OTHER_EVENT # es) = handle_events s es"

text \<open>Lines 328-338.\<close>

definition restart :: "(nat \<Rightarrow> int \<times> int) \<Rightarrow> game \<Rightarrow> game option" where
  "restart rng s =
     (case random_food_position [(WIDTH div 2, HEIGHT div 2)] [] rng 0 of
        None \<Rightarrow> None
      | Some (p, i) \<Rightarrow>
          Some (s\<lparr>snake := [(WIDTH div 2, HEIGHT div 2)], direction := (0, 0), food_pos := p,
                  food_type := Normal, score := 0, game_over := False, level := 1,
                  obstacles := [], powerup_active := False, FPS := 7\<rparr>))"

text \<open>One pass through the body of \<open>while True\<close> (lines 183-341); drawing is left out.\<close>

definition iteration :: "game \<Rightarrow> input \<Rightarrow> (stop + game) option" where
  "iteration s inp =
     (case handle_events s (events inp) of
        Inl e \<Rightarrow> Some (Inl e)
      | Inr s1 \<Rightarrow>
          if paused s1 then Some (Inr s1)
          else (case tick s1 inp of
                  None \<Rightarrow> None
                | Some (Inl e) \<Rightarrow> Some (Inl e)
                | Some (Inr s2) \<Rightarrow>
                    if game_over s2 \<and> K_r (keys inp)
                    then map_option Inr (restart (restart_cells inp) s2)
                    else Some (Inr s2)))"

text \<open>
  The menu loop (lines 175-181): one poll returns the state and whether the loop ends.
  \<open>get_direction\<close> is only called when SPACE is not pressed.
\<close>

definition menu_poll :: "serial_read option \<Rightarrow> pressed \<Rightarrow> game \<Rightarrow> game \<times> bool" where
  "menu_poll ser ks s =
     (if K_SPACE ks then (s, True)
      else (let (d, s') = get_direction ser ks s in (s', d \<noteq> (0, 0))))"

inductive menu_state :: "game \<Rightarrow> bool" where
  boot: "random_food_position [(WIDTH div 2, HEIGHT div 2)] [] rng 0 = Some (p, i)
           \<Longrightarrow> menu_state (new_game p hs)"
| waiting: "menu_state s \<Longrightarrow> menu_poll ser ks s = (s', False) \<Longrightarrow> menu_state s'"

inductive reachable :: "game \<Rightarrow> bool" where
  started: "menu_state s \<Longrightarrow> menu_poll ser ks s = (s', True) \<Longrightarrow> reachable s'"
| step: "reachable s \<Longrightarrow> iteration s inp = Some (Inr s') \<Longrightarrow> reachable s'"

text \<open>A run of ticks without restart: the states passed through, the first one included.\<close>

fun run :: "game \<Rightarrow> input list \<Rightarrow> game list option" where
  "run s [] = Some [s]"
| "run s (inp # inps) =
     (case tick s inp of
        Some (Inr s') \<Rightarrow> map_option ((#) s) (run s' inps)
      | _ \<Rightarrow> None)"

text \<open>The number of level-ups along a sequence of states.\<close>

fun level_ups :: "game list \<Rightarrow> nat" where
  "level_ups (a # b # rest) = (if level a < level b then 1 else 0) + level_ups (b # rest)"
| "level_ups _ = 0"

section \<open>Concrete inputs used in the examples\<close>

definition no_keys :: pressed where
  "no_keys = \<lparr>K_LEFT = False, K_RIGHT = False, K_UP = False, K_DOWN = False, K_p = False,
              K_r = False, K_SPACE = False\<rparr>"

text \<open>A source that draws the centre cell \<open>(20, 15)\<close> twice and then \<open>(21, 15)\<close>.\<close>

definition late_source :: "nat \<Rightarrow> int \<times> int" where
  "late_source i = (if i < 2 then (20, 15) else (21, 15))"



text \<open>Keyboard input with the given keys held, no events, and one source for all draws.\<close>

definition keyboard :: "pressed \<Rightarrow> (nat \<Rightarrow> int \<times> int) \<Rightarrow> bool \<Rightarrow> input" where
  "keyboard ks src roll =
     \<lparr>events = [], ser_read = None, keys = ks, cells = src, power_roll = roll,
      restart_cells = src\<rparr>"


definition right_keys :: pressed where "right_keys = no_keys\<lparr>K_RIGHT := True\<rparr>"
definition left_keys :: pressed where "left_keys = no_keys\<lparr>K_LEFT := True\<rparr>"
definition up_keys :: pressed where "up_keys = no_keys\<lparr>K_UP := True\<rparr>"
definition down_keys :: pressed where "down_keys = no_keys\<lparr>K_DOWN := True\<rparr>"

text \<open>A source that always draws the same pair, and one that walks along the top row.\<close>

definition fixed_source :: "int \<times> int \<Rightarrow> nat \<Rightarrow> int \<times> int" where
  "fixed_source c i = c"

definition corner_source :: "nat \<Rightarrow> int \<times> int" where
  "corner_source i = (int i, 0)"

text \<open>A state late in a run: level 3, power-up in its last tick, tick rate above the base.\<close>

definition expiring_game :: game where
  "expiring_game =
     \<lparr>snake = [(400, 300), (380, 300)], direction = (1, 0), food_pos = (0, 0),
      food_type = Normal, score = 25, game_over = False, paused = False, show_grid = True,
      level = 3, obstacles = [(20, 0), (40, 0), (60, 0), (80, 0), (100, 0)],
      powerup_active = True, powerup_timer = 1, FPS = 21 / 2, high_score = 25\<rparr>"

text \<open>A snake of length one on the bottom row, heading down.\<close>

definition at_bottom_wall :: game where
  "at_bottom_wall =
     \<lparr>snake = [(400, 580)], direction = (0, 1), food_pos = (0, 0),
      food_type = Normal, score = 0, game_over = False, paused = False, show_grid = True,
      level = 1, obstacles = [], powerup_active = False, powerup_timer = 0, FPS = 7,
      high_score = 0\<rparr>"

definition beyond_wall :: game where
  "beyond_wall = at_bottom_wall\<lparr>snake := [(400, 600)], game_over := True\<rparr>"

text \<open>A snake of length two heading right, the food not ahead.\<close>

definition cruising_game :: game where
  "cruising_game =
     \<lparr>snake = [(420, 300), (400, 300)], direction = (1, 0), food_pos = (0, 0),
      food_type = Normal, score = 1, game_over = False, paused = False, show_grid = True,
      level = 1, obstacles = [], powerup_active = False, powerup_timer = 0, FPS = 7,
      high_score = 1\<rparr>"

text \<open>Fourteen ticks straight down from the centre, the food in the corner.\<close>

definition descent :: "input list" where
  "descent = replicate 14 (keyboard down_keys corner_source False)"

text \<open>
  Six ticks from the start with the food one cell to the right: four foods in a row are
  eaten, the fourth a power-up, then the snake turns down and left.
\<close>

definition crossing_inputs :: "input list" where
  "crossing_inputs =
     [keyboard right_keys (fixed_source (22, 15)) False,
      keyboard right_keys (fixed_source (23, 15)) False,
      keyboard right_keys (fixed_source (24, 15)) True,
      keyboard right_keys corner_source False,
      keyboard down_keys corner_source False,
      keyboard left_keys corner_source False]"

definition before_crossing :: game where
  "before_crossing =
     \<lparr>snake = [(460, 320), (480, 320), (480, 300), (460, 300), (440, 300)],
      direction = (-1, 0), food_pos = (0, 0), food_type = Normal, score = 4,
      game_over = False, paused = False, show_grid = True, level = 1, obstacles = [],
      powerup_active = True, powerup_timer = 102, FPS = 10, high_score = 4\<rparr>"

definition after_crossing :: game where
  "after_crossing =
     before_crossing\<lparr>snake := [(460, 300), (460, 320), (480, 320), (480, 300), (460, 300)],
                      direction := (0, -1), powerup_timer := 101\<rparr>"

text \<open>Ten ticks from the start, each onto a food placed one cell ahead; the tenth draw
  sequence walks along the top row.\<close>

definition ten_foods :: "input list" where
  "ten_foods =
     map (\<lambda>k. keyboard right_keys (fixed_source (22 + int k, 15)) False) [0..<9]
     @ [keyboard right_keys corner_source False]"

section \<open>Level and obstacle count\<close>

text \<open>The sum of the levels from \<open>lo\<close> to \<open>hi\<close>.\<close>

definition sum_levels :: "int \<Rightarrow> int \<Rightarrow> int" where
  "sum_levels lo hi = (\<Sum>k = lo..hi. k)"

definition level_inv :: "game \<Rightarrow> bool" where
  "level_inv s =
     (0 \<le> score s \<and> level s = score s div 10 + 1 \<and>
      int (length (obstacles s)) = sum_levels 2 (level s))"

section \<open>Restart: concrete input\<close>

definition restart_keys :: pressed where "restart_keys = no_keys\<lparr>K_r := True\<rparr>"

text \<open>Twenty ticks from the start: the ten foods, then straight on into the right wall.\<close>

definition into_the_wall :: "input list" where
  "into_the_wall = ten_foods @ replicate 10 (keyboard right_keys corner_source False)"

text \<open>The state at the end of those twenty ticks, and the same with the pause flag set.\<close>

definition level2_crash :: game where
  "level2_crash =
     \<lparr>snake = [(800, 300), (780, 300), (760, 300), (740, 300), (720, 300), (700, 300),
               (680, 300), (660, 300), (640, 300), (620, 300), (600, 300)],
      direction = (1, 0), food_pos = (0, 0), food_type = Normal, score = 10,
      game_over = True, paused = False, show_grid = True, level = 2,
      obstacles = [(20, 0), (40, 0)], powerup_active = False, powerup_timer = 0,
      FPS = 15 / 2, high_score = 10\<rparr>"

definition paused_crash :: game where
  "paused_crash = level2_crash\<lparr>paused := True\<rparr>"

text \<open>An iteration whose only event is the pause key going down.\<close>

definition pause_event :: input where
  "pause_event = (keyboard no_keys corner_source False)\<lparr>events := [KEYDOWN_p]\<rparr>"

section \<open>Entity placement: results\<close>

lemma rfp_step:
  "random_food_position sn obs rng i =
     (if free_cell sn obs (drawn_cell rng i) then Some (drawn_cell rng i, Suc i)
      else random_food_position sn obs rng (Suc i))"
  by (subst random_food_position.simps) (simp only: Let_def free_cell_def drawn_cell_def)

lemma rfp_Some_free:
  assumes "random_food_position sn obs rng i = Some r"
  shows "\<exists>k\<ge>i. free_cell sn obs (drawn_cell rng k)"
proof (rule random_food_position.raw_induct
    [where P = "\<lambda>sn obs rng i r. \<exists>k\<ge>i. free_cell sn obs (drawn_cell rng k)", OF _ assms])
  fix rfp :: "cell list \<Rightarrow> cell list \<Rightarrow> (nat \<Rightarrow> int \<times> int) \<Rightarrow> nat \<Rightarrow> (cell \<times> nat) option"
  fix sn obs rng i r
  assume IH: "\<And>sn obs rng i r. rfp sn obs rng i = Some r \<Longrightarrow>
                \<exists>k\<ge>i. free_cell sn obs (drawn_cell rng k)"
  assume eq: "(let x = fst (rng i); y = snd (rng i); pos = (x * CELL_SIZE, y * CELL_SIZE)
      in if pos \<notin> set sn \<and> pos \<notin> set obs then Some (pos, Suc i)
         else rfp sn obs rng (Suc i)) = Some r"
  show "\<exists>k\<ge>i. free_cell sn obs (drawn_cell rng k)"
  proof (cases "free_cell sn obs (drawn_cell rng i)")
    case True
    then show ?thesis by blast
  next
    case False
    from eq have "(if free_cell sn obs (drawn_cell rng i) then Some (drawn_cell rng i, Suc i)
        else rfp sn obs rng (Suc i)) = Some r"
      by (simp only: Let_def free_cell_def drawn_cell_def)
    with False have "rfp sn obs rng (Suc i) = Some r" by simp
    from IH[OF this] obtain k where "Suc i \<le> k" "free_cell sn obs (drawn_cell rng k)"
      by blast
    then show ?thesis by (intro exI[of _ k]) simp
  qed
qed


lemma rfp_first_free:
  "free_cell sn obs (drawn_cell rng (i + n)) \<Longrightarrow>
   (\<forall>m. i \<le> m \<and> m < i + n \<longrightarrow> \<not> free_cell sn obs (drawn_cell rng m)) \<Longrightarrow>
   random_food_position sn obs rng i = Some (drawn_cell rng (i + n), Suc (i + n))"
proof (induction n arbitrary: i)
  case 0
  then show ?case by (subst rfp_step) simp
next
  case (Suc n)
  from Suc.prems(2) have occ: "\<not> free_cell sn obs (drawn_cell rng i)" by simp
  have a: "free_cell sn obs (drawn_cell rng (Suc i + n))" using Suc.prems(1) by simp
  have b: "\<forall>m. Suc i \<le> m \<and> m < Suc i + n \<longrightarrow> \<not> free_cell sn obs (drawn_cell rng m)"
    using Suc.prems(2) by simp
  have "random_food_position sn obs rng i = random_food_position sn obs rng (Suc i)"
    using occ by (subst rfp_step) simp
  with Suc.IH[OF a b] show ?case by simp
qed

lemma rfp_returns:
  assumes "i \<le> k" and "free_cell sn obs (drawn_cell rng k)"
  shows "\<exists>j\<ge>i. random_food_position sn obs rng i = Some (drawn_cell rng j, Suc j) \<and>
           free_cell sn obs (drawn_cell rng j) \<and>
           (\<forall>m. i \<le> m \<and> m < j \<longrightarrow> \<not> free_cell sn obs (drawn_cell rng m))"
proof -
  define P where "P = (\<lambda>j. i \<le> j \<and> free_cell sn obs (drawn_cell rng j))"
  define j where "j = (LEAST j. P j)"
  have "P k" using assms by (simp add: P_def)
  then have Pj: "P j" unfolding j_def by (rule LeastI)
  have least: "\<And>m. m < j \<Longrightarrow> \<not> P m" unfolding j_def by (rule not_less_Least)
  from Pj have ij: "i \<le> j" and fj: "free_cell sn obs (drawn_cell rng j)" by (simp_all add: P_def)
  have a: "free_cell sn obs (drawn_cell rng (i + (j - i)))" using ij fj by simp
  have b: "\<forall>m. i \<le> m \<and> m < i + (j - i) \<longrightarrow> \<not> free_cell sn obs (drawn_cell rng m)"
    using least ij by (auto simp: P_def)
  from rfp_first_free[OF a b] ij have "random_food_position sn obs rng i = Some (drawn_cell rng j, Suc j)"
    by simp
  moreover from b ij have "\<forall>m. i \<le> m \<and> m < j \<longrightarrow> \<not> free_cell sn obs (drawn_cell rng m)"
    by simp
  ultimately show ?thesis using ij fj by blast
qed

lemma rfp_result:
  assumes "random_food_position sn obs rng i = Some (pos, j)"
  shows "\<exists>k\<ge>i. pos = drawn_cell rng k \<and> j = Suc k \<and> free_cell sn obs pos"
proof -
  from rfp_Some_free[OF assms] obtain k where "i \<le> k" "free_cell sn obs (drawn_cell rng k)"
    by blast
  from rfp_returns[OF this] assms show ?thesis by auto
qed

lemma drawn_cell_ok:
  assumes "randint_range rng"
  shows "cell_aligned (drawn_cell rng k) \<and> in_bounds (drawn_cell rng k)"
proof -
  from assms have "0 \<le> fst (rng k) \<and> fst (rng k) \<le> 39 \<and> 0 \<le> snd (rng k) \<and> snd (rng k) \<le> 29"
    by (simp add: randint_range_def WIDTH_def HEIGHT_def CELL_SIZE_def)
  then show ?thesis
    by (simp add: cell_aligned_def in_bounds_def drawn_cell_def WIDTH_def HEIGHT_def CELL_SIZE_def)
qed

text \<open>
  Claim C5. Whenever \<open>random_food_position\<close> returns, with draws inside the ranges of
  \<open>randint\<close>, the position is in neither the snake nor the obstacle list, is a multiple of
  the cell size in both coordinates, and lies inside the board. This holds for every
  snake and obstacle list, so in particular for those smaller than the grid.
\<close>

theorem random_food_position_free:
  assumes "randint_range rng"
    and "random_food_position sn obs rng i = Some (pos, j)"
  shows "pos \<notin> set sn \<and> pos \<notin> set obs \<and> cell_aligned pos \<and> in_bounds pos"
proof -
  from rfp_result[OF assms(2)] obtain k where
    "pos = drawn_cell rng k" "free_cell sn obs pos" by auto
  with drawn_cell_ok[OF assms(1), of k] show ?thesis by (simp add: free_cell_def)
qed

theorem random_food_position_free_witness:
  "randint_range late_source \<and>
   random_food_position [(400, 300)] [(0, 0)] late_source 0
     = Some ((420, 300), 3) \<and>
   (420, 300) \<notin> set [(400, 300) :: cell] \<and> (420, 300) \<notin> set [(0, 0) :: cell] \<and>
   cell_aligned (420, 300) \<and> in_bounds (420, 300)"
proof -
  have r: "randint_range late_source"
    by (simp add: randint_range_def late_source_def WIDTH_def HEIGHT_def CELL_SIZE_def)
  have e: "random_food_position [(400, 300)] [(0, 0)] late_source 0 = Some ((420, 300), 3)"
    by (simp add: random_food_position.simps late_source_def CELL_SIZE_def)
  from random_food_position_free[OF r e] r e show ?thesis by simp
qed











section \<open>Input adapter: results\<close>




text \<open>For contrast, a frame that is not malformed is parsed: three integers, from which the
  direction is computed and the pause flag flipped when the button reads 0.\<close>

lemma wellformed_frame_parsed:
  assumes "\<not> malformed r"
  shows "\<exists>vx vy button. r = Fields [Integer vx, Integer vy, Integer button] \<and>
           get_direction (Some r) ks s =
             (joystick_vector (vx - joy_center_x) (vy - joy_center_y),
              if button = 0 then s\<lparr>paused := \<not> paused s\<rparr> else s)"
proof -
  from assms obtain vals where r: "r = Fields vals" and len: "length vals = 3"
    and ints: "Not_Integer \<notin> set vals"
    by (cases r) (auto simp: malformed_def)
  from len obtain a b c where vals: "vals = [a, b, c]"
    by (cases vals; cases "tl vals"; cases "tl (tl vals)") auto
  with ints obtain vx vy button where "a = Integer vx" "b = Integer vy" "c = Integer button"
    by (cases a; cases b; cases c) auto
  with r vals show ?thesis by (simp add: get_direction_def Let_def)
qed

section \<open>Direction filter: results\<close>

lemma update_direction_no_reversal:
  "d \<noteq> (0, 0) \<Longrightarrow> update_direction d c \<noteq> negated d"
  by (cases d; cases c) (auto simp: update_direction_def negated_def)

lemma directions_length [simp]: "length (directions d cs) = Suc (length cs)"
  by (induction cs arbitrary: d) auto

lemma directions_step:
  "k < length cs \<Longrightarrow>
   directions d cs ! Suc k = update_direction (directions d cs ! k) (cs ! k)"
proof (induction cs arbitrary: d k)
  case Nil
  then show ?case by simp
next
  case (Cons c cs)
  show ?case
  proof (cases k)
    case 0
    then show ?thesis by (cases cs) auto
  next
    case (Suc j)
    with Cons.prems have "j < length cs" by simp
    from Cons.IH[OF this] Suc show ?thesis by simp
  qed
qed

text \<open>
  Claim C3. Along any sequence of candidates, each new direction is the candidate only if
  the candidate is non-zero and not the negation of the direction held before, and is the
  direction held before otherwise; it never is the negation of a non-zero direction held
  before.
\<close>

theorem no_instant_reversal:
  assumes "k < length cs"
  shows "directions d cs ! Suc k =
           (if cs ! k \<noteq> (0, 0) \<and> negated (cs ! k) \<noteq> directions d cs ! k
            then cs ! k else directions d cs ! k) \<and>
         (directions d cs ! k \<noteq> (0, 0) \<longrightarrow>
            directions d cs ! Suc k \<noteq> negated (directions d cs ! k))"
proof -
  have "directions d cs ! Suc k = update_direction (directions d cs ! k) (cs ! k)"
    using assms by (rule directions_step)
  then show ?thesis
    using update_direction_no_reversal [of "directions d cs ! k" "cs ! k"]
    by (auto simp: update_direction_def negated_def)
qed

theorem no_instant_reversal_witness:
  "(1::nat) < length [(0, 1), (0, -1), (0, 0) :: int \<times> int] \<and>
   directions (1, 0) [(0, 1), (0, -1), (0, 0)] ! 1 = (0, 1) \<and>
   directions (1, 0) [(0, 1), (0, -1), (0, 0)] ! Suc 1 = (0, 1) \<and>
   directions (1, 0) [(0, 1), (0, -1), (0, 0)] ! Suc 1 \<noteq> negated (0, 1)"
  using no_instant_reversal [of 1 "[(0, 1), (0, -1), (0, 0)]" "(1, 0)"]
  by (simp add: update_direction_def negated_def)

section \<open>The tick: stage lemmas\<close>

lemma get_direction_state:
  "snd (get_direction ser ks s) = s \<or> snd (get_direction ser ks s) = s\<lparr>paused := \<not> paused s\<rparr>"
proof (cases ser)
  case None
  then show ?thesis by (simp add: get_direction_def Let_def)
next
  case (Some r)
  show ?thesis
  proof (cases r)
    case Undecodable
    with Some show ?thesis by (simp add: get_direction_def)
  next
    case Empty_Read
    with Some show ?thesis by (simp add: get_direction_def)
  next
    case (Fields vals)
    with Some show ?thesis
      by (simp add: get_direction_def Let_def split: field.splits)
  qed
qed

lemma get_direction_paused_only:
  "\<exists>b. snd (get_direction ser ks s) = s\<lparr>paused := b\<rparr>"
proof -
  have "s = s\<lparr>paused := paused s\<rparr>" by simp
  with get_direction_state[of ser ks s] show ?thesis by metis
qed

lemma steered_fields [simp]:
  "snake (steered s inp) = snake s"
  "food_pos (steered s inp) = food_pos s"
  "food_type (steered s inp) = food_type s"
  "score (steered s inp) = score s"
  "game_over (steered s inp) = game_over s"
  "level (steered s inp) = level s"
  "obstacles (steered s inp) = obstacles s"
  "powerup_active (steered s inp) = powerup_active s"
  "powerup_timer (steered s inp) = powerup_timer s"
  "FPS (steered s inp) = FPS s"
  "high_score (steered s inp) = high_score s"
  "show_grid (steered s inp) = show_grid s"
  "direction (steered s inp) = next_direction s inp"
  using get_direction_paused_only[of "ser_read inp" "keys inp" s]
  by (auto simp: steered_def)

lemma tick_unfold:
  "tick s inp =
     (if game_over s then Some (Inr s)
      else if next_direction s inp = (0, 0) then Some (Inr (powerup_countdown (steered s inp)))
      else (case snake s of
              [] \<Rightarrow> Some (Inl IndexError)
            | h # _ \<Rightarrow>
                (case eat_food (advance h (next_direction s inp)) (cells inp) (power_roll inp)
                        ((collide (advance h (next_direction s inp)) (steered s inp))
                           \<lparr>snake := advance h (next_direction s inp) # snake s\<rparr>) of
                   None \<Rightarrow> None
                 | Some (s5, i) \<Rightarrow>
                     (case level_progression (cells inp) i s5 of
                        None \<Rightarrow> None
                      | Some s6 \<Rightarrow> Some (Inr (powerup_countdown s6))))))"
proof -
  obtain b where b: "snd (get_direction (ser_read inp) (keys inp) s) = s\<lparr>paused := b\<rparr>"
    using get_direction_paused_only by blast
  obtain nd s1 where g: "get_direction (ser_read inp) (keys inp) s = (nd, s1)"
    by (cases "get_direction (ser_read inp) (keys inp) s")
  with b have s1: "s1 = s\<lparr>paused := b\<rparr>" by simp
  have st: "steered s inp = s1\<lparr>direction := update_direction (direction s) nd\<rparr>"
    by (simp add: steered_def next_direction_def g)
  have nx: "next_direction s inp = update_direction (direction s) nd"
    by (simp add: next_direction_def g)
  have c: "\<And>h. snake (collide h (s1\<lparr>direction := update_direction (direction s) nd\<rparr>)) = snake s"
    by (simp add: collide_def Let_def s1)
  show ?thesis
    unfolding tick_def g st nx
    by (simp add: Let_def s1 c collide_def split: list.splits)
qed

lemma eat_food_eaten:
  assumes "nh = food_pos s" and "eat_food nh rng roll s = Some (s', i)"
  shows "snake s' = snake s" "score s' = score s + 1" "game_over s' = game_over s"
    "obstacles s' = obstacles s" "level s' = level s"
  using assms
  by (auto simp: eat_food_def save_high_score_def Let_def split: option.splits if_splits)

lemma eat_food_missed:
  assumes "nh \<noteq> food_pos s" and "eat_food nh rng roll s = Some (s', i)"
  shows "s' = s\<lparr>snake := butlast (snake s)\<rparr>"
  using assms by (simp add: eat_food_def)

lemma add_obstacles_appends:
  "add_obstacles n sn obs rng i = Some (obs', j) \<Longrightarrow>
   \<exists>new. obs' = obs @ new \<and> length new = n"
proof (induction n arbitrary: obs i)
  case 0
  then show ?case by simp
next
  case (Suc n)
  from Suc.prems obtain p k where
    "add_obstacles n sn (obs @ [p]) rng k = Some (obs', j)"
    by (auto split: option.splits)
  from Suc.IH[OF this] obtain new where "obs' = (obs @ [p]) @ new" "length new = n" by blast
  then have "obs' = obs @ (p # new) \<and> length (p # new) = Suc n" by simp
  then show ?case by blast
qed

lemma level_progression_fields:
  assumes "level_progression rng i s = Some s'"
  shows "snake s' = snake s" "score s' = score s" "game_over s' = game_over s"
    "food_pos s' = food_pos s" "powerup_active s' = powerup_active s"
    "powerup_timer s' = powerup_timer s" "high_score s' = high_score s"
    "level s' = max (level s) (score s div 10 + 1)"
  using assms
  by (auto simp: level_progression_def Let_def split: option.splits if_splits)

lemma level_progression_idle:
  assumes "level_progression rng i s = Some s'" and "score s div 10 + 1 \<le> level s"
  shows "s' = s"
  using assms by (simp add: level_progression_def)

lemma level_progression_obstacles:
  assumes "level_progression rng i s = Some s'" and "level s < score s div 10 + 1"
  shows "\<exists>new. obstacles s' = obstacles s @ new \<and> length new = nat (score s div 10 + 1)"
  using assms
  by (auto simp: level_progression_def Let_def split: option.splits dest: add_obstacles_appends)

lemma powerup_countdown_fields [simp]:
  "snake (powerup_countdown s) = snake s"
  "score (powerup_countdown s) = score s"
  "game_over (powerup_countdown s) = game_over s"
  "food_pos (powerup_countdown s) = food_pos s"
  "level (powerup_countdown s) = level s"
  "obstacles (powerup_countdown s) = obstacles s"
  "high_score (powerup_countdown s) = high_score s"
  "direction (powerup_countdown s) = direction s"
  by (simp_all add: powerup_countdown_def Let_def)

lemma powerup_countdown_expiry:
  "powerup_active s \<Longrightarrow> \<not> powerup_active (powerup_countdown s) \<Longrightarrow> FPS (powerup_countdown s) = 7"
  by (simp add: powerup_countdown_def Let_def split: if_splits)

lemma collide_fields [simp]:
  "snake (collide h s) = snake s"
  "score (collide h s) = score s"
  "food_pos (collide h s) = food_pos s"
  "food_type (collide h s) = food_type s"
  "level (collide h s) = level s"
  "obstacles (collide h s) = obstacles s"
  "powerup_active (collide h s) = powerup_active s"
  "high_score (collide h s) = high_score s"
  by (simp_all add: collide_def Let_def body_collision_def)

lemma collide_game_over:
  "game_over (collide h s) = (game_over s \<or> wall_collision h \<or> body_collision s h)"
  by (auto simp: collide_def Let_def body_collision_def)

lemma body_collision_steered [simp]:
  "body_collision (steered s inp) h = body_collision s h"
  by (simp add: body_collision_def)

text \<open>The stages of a tick that moves the snake, named.\<close>

lemma tick_moving:
  assumes "\<not> game_over s" and "next_direction s inp \<noteq> (0, 0)" and "snake s = h # t"
    and "tick s inp = Some (Inr s')"
  obtains s5 i s6 where
    "eat_food (advance h (next_direction s inp)) (cells inp) (power_roll inp)
       ((collide (advance h (next_direction s inp)) (steered s inp))
          \<lparr>snake := advance h (next_direction s inp) # snake s\<rparr>) = Some (s5, i)"
    "level_progression (cells inp) i s5 = Some s6"
    "s' = powerup_countdown s6"
  using assms by (subst (asm) tick_unfold) (auto split: option.splits)

section \<open>Reachable states\<close>

lemma eat_food_paused:
  "eat_food nh rng roll s = Some (s', i) \<Longrightarrow> paused s' = paused s"
  by (auto simp: eat_food_def save_high_score_def Let_def split: option.splits if_splits)

lemma level_progression_paused:
  "level_progression rng i s = Some s' \<Longrightarrow> paused s' = paused s"
  by (auto simp: level_progression_def Let_def split: option.splits if_splits)

lemma powerup_countdown_paused [simp]: "paused (powerup_countdown s) = paused s"
  by (simp add: powerup_countdown_def Let_def)

lemma collide_paused [simp]: "paused (collide h s) = paused s"
  by (simp add: collide_def Let_def body_collision_def)

lemma steered_paused:
  "ser_read inp = None \<Longrightarrow> \<not> K_p (keys inp) \<Longrightarrow> paused (steered s inp) = paused s"
  by (simp add: steered_def get_direction_def Let_def)

lemma tick_keeps_unpaused:
  assumes "ser_read inp = None" and "\<not> K_p (keys inp)" and "\<not> paused s"
    and "tick s inp = Some (Inr s')"
  shows "\<not> paused s'"
proof (cases "game_over s \<or> next_direction s inp = (0, 0)")
  case True
  with assms steered_paused[OF assms(1,2), of s] show ?thesis
    by (auto simp: tick_unfold split: if_splits)
next
  case False
  then have g: "\<not> game_over s" and nz: "next_direction s inp \<noteq> (0, 0)" by simp_all
  show ?thesis
  proof (cases "snake s")
    case Nil
    with assms(4) g nz show ?thesis by (simp add: tick_unfold)
  next
    case (Cons h tl)
    from tick_moving[OF g nz Cons assms(4)] obtain s5 i s6 where
      eat: "eat_food (advance h (next_direction s inp)) (cells inp) (power_roll inp)
         ((collide (advance h (next_direction s inp)) (steered s inp))
            \<lparr>snake := advance h (next_direction s inp) # snake s\<rparr>) = Some (s5, i)" and
      lev: "level_progression (cells inp) i s5 = Some s6" and
      s': "s' = powerup_countdown s6" by blast
    from eat_food_paused[OF eat] level_progression_paused[OF lev] s'
      steered_paused[OF assms(1,2), of s] assms(3)
    show ?thesis by simp
  qed
qed

lemma iteration_plain:
  "events inp = [] \<Longrightarrow> \<not> paused s \<Longrightarrow> \<not> K_r (keys inp) \<Longrightarrow> iteration s inp = tick s inp"
  by (simp add: iteration_def split: option.splits sum.splits)

lemma run_nonempty: "run s inps = Some tr \<Longrightarrow> tr \<noteq> [] \<and> hd tr = s"
  by (cases inps) (auto split: option.splits sum.splits)

lemma run_reachable:
  assumes "\<forall>inp \<in> set inps. events inp = [] \<and> ser_read inp = None \<and>
             \<not> K_p (keys inp) \<and> \<not> K_r (keys inp)"
    and "reachable s" and "\<not> paused s" and "run s inps = Some tr"
  shows "\<forall>x \<in> set tr. reachable x \<and> \<not> paused x"
  using assms
proof (induction inps arbitrary: s tr)
  case Nil
  then show ?case by auto
next
  case (Cons inp inps)
  from Cons.prems(4) obtain s' tr' where
    t: "tick s inp = Some (Inr s')" and r: "run s' inps = Some tr'" and tr: "tr = s # tr'"
    by (auto split: option.splits sum.splits)
  from Cons.prems(1) have p: "events inp = []" "ser_read inp = None" "\<not> K_p (keys inp)"
    "\<not> K_r (keys inp)" by simp_all
  from iteration_plain[OF p(1) Cons.prems(3) p(4)] t
  have "iteration s inp = Some (Inr s')" by simp
  with Cons.prems(2) have rs': "reachable s'" by (rule reachable.step)
  from tick_keeps_unpaused[OF p(2,3) Cons.prems(3) t] have ps': "\<not> paused s'" .
  from Cons.prems(1) have rest: "\<forall>inp \<in> set inps. events inp = [] \<and> ser_read inp = None \<and>
             \<not> K_p (keys inp) \<and> \<not> K_r (keys inp)" by simp
  from Cons.IH[OF rest rs' ps' r] Cons.prems(2,3) tr show ?case by simp
qed

lemma run_last_reachable:
  assumes "\<forall>inp \<in> set inps. events inp = [] \<and> ser_read inp = None \<and>
             \<not> K_p (keys inp) \<and> \<not> K_r (keys inp)"
    and "reachable s" and "\<not> paused s" and "map_option last (run s inps) = Some x"
  shows "reachable x"
proof -
  from assms(4) obtain tr where tr: "run s inps = Some tr" "last tr = x" by auto
  from run_nonempty[OF tr(1)] have "last tr \<in> set tr" by simp
  with run_reachable[OF assms(1,2,3) tr(1)] tr(2) show ?thesis by auto
qed

lemma new_game_reachable:
  assumes "p = (x * CELL_SIZE, y * CELL_SIZE)" and "p \<noteq> (WIDTH div 2, HEIGHT div 2)"
  shows "reachable (new_game p hs)"
proof -
  have "free_cell [(WIDTH div 2, HEIGHT div 2)] [] (drawn_cell (fixed_source (x, y)) 0)"
    using assms by (simp add: free_cell_def drawn_cell_def fixed_source_def)
  then have "random_food_position [(WIDTH div 2, HEIGHT div 2)] [] (fixed_source (x, y)) 0
      = Some (p, Suc 0)"
    using assms(1) by (subst rfp_step) (simp add: drawn_cell_def fixed_source_def)
  then have m: "menu_state (new_game p hs)" by (rule menu_state.boot)
  have "menu_poll None (no_keys\<lparr>K_SPACE := True\<rparr>) (new_game p hs) = (new_game p hs, True)"
    by (simp add: menu_poll_def)
  with m show ?thesis by (rule reachable.started)
qed

lemma keyboard_plain:
  "events (keyboard ks src roll) = []" "ser_read (keyboard ks src roll) = None"
  "keys (keyboard ks src roll) = ks"
  by (simp_all add: keyboard_def)

lemma arrow_keys_plain:
  "\<not> K_p right_keys" "\<not> K_r right_keys" "\<not> K_p left_keys" "\<not> K_r left_keys"
  "\<not> K_p up_keys" "\<not> K_r up_keys" "\<not> K_p down_keys" "\<not> K_r down_keys"
  by (simp_all add: right_keys_def left_keys_def up_keys_def down_keys_def no_keys_def)

lemma new_game_unpaused: "\<not> paused (new_game p hs)"
  by (simp add: new_game_def)

lemma start_reachable: "reachable (new_game (420, 300) 0)"
  by (rule new_game_reachable [of _ 21 15]) (simp_all add: CELL_SIZE_def WIDTH_def HEIGHT_def)

lemma corner_start_reachable: "reachable (new_game (0, 0) 0)"
  by (rule new_game_reachable [of _ 0 0]) (simp_all add: CELL_SIZE_def WIDTH_def HEIGHT_def)

lemma at_bottom_wall_reachable: "reachable at_bottom_wall"
proof -
  have "map_option last (run (new_game (0, 0) 0) descent) = Some at_bottom_wall"
    by code_simp
  moreover have "\<forall>inp \<in> set descent. events inp = [] \<and> ser_read inp = None \<and>
             \<not> K_p (keys inp) \<and> \<not> K_r (keys inp)"
    by (simp add: descent_def keyboard_plain arrow_keys_plain)
  ultimately show ?thesis
    using corner_start_reachable new_game_unpaused by (rule run_last_reachable[rotated 3])
qed

lemma before_crossing_reachable: "reachable before_crossing"
proof -
  have "map_option last (run (new_game (420, 300) 0) crossing_inputs) = Some before_crossing"
    by code_simp
  moreover have "\<forall>inp \<in> set crossing_inputs. events inp = [] \<and> ser_read inp = None \<and>
             \<not> K_p (keys inp) \<and> \<not> K_r (keys inp)"
    by (simp add: crossing_inputs_def keyboard_plain arrow_keys_plain)
  ultimately show ?thesis
    using start_reachable new_game_unpaused by (rule run_last_reachable[rotated 3])
qed

section \<open>The tick: growth, score and tick rate\<close>



text \<open>
  Claim C10. When the power-up countdown reaches zero, the tick rate is set to exactly 7,
  whatever the level and the tick rate were: stated for the countdown step, and for a whole
  tick in which an active power-up ends.
\<close>

theorem powerup_expiry_resets_fps:
  "(powerup_active m \<and> powerup_timer m - 1 \<le> 0 \<longrightarrow>
      FPS (powerup_countdown m) = 7 \<and> \<not> powerup_active (powerup_countdown m) \<and>
      level (powerup_countdown m) = level m) \<and>
   (tick s inp = Some (Inr s') \<and> powerup_active s \<and> \<not> powerup_active s' \<longrightarrow> FPS s' = 7)"
proof (intro conjI impI)
  assume "powerup_active m \<and> powerup_timer m - 1 \<le> 0"
  then show "FPS (powerup_countdown m) = 7" "\<not> powerup_active (powerup_countdown m)"
    by (simp_all add: powerup_countdown_def Let_def)
  show "level (powerup_countdown m) = level m" by simp
next
  assume a: "tick s inp = Some (Inr s') \<and> powerup_active s \<and> \<not> powerup_active s'"
  then have t: "tick s inp = Some (Inr s')" and p: "powerup_active s" and q: "\<not> powerup_active s'"
    by simp_all
  have "\<exists>m. s' = powerup_countdown m \<and> powerup_active m"
  proof (cases "game_over s")
    case True
    with t p q show ?thesis by (simp add: tick_unfold)
  next
    case False
    show ?thesis
    proof (cases "next_direction s inp = (0, 0)")
      case True
      with t False p show ?thesis by (auto simp: tick_unfold)
    next
      case nz: False
      show ?thesis
      proof (cases "snake s")
        case Nil
        with t False nz show ?thesis by (simp add: tick_unfold)
      next
        case (Cons h tl)
        let ?nh = "advance h (next_direction s inp)"
        let ?s4 = "(collide ?nh (steered s inp))\<lparr>snake := ?nh # snake s\<rparr>"
        from tick_moving[OF False nz Cons t] obtain s5 i s6 where
          eat: "eat_food ?nh (cells inp) (power_roll inp) ?s4 = Some (s5, i)" and
          lev: "level_progression (cells inp) i s5 = Some s6" and
          s': "s' = powerup_countdown s6" by blast
        have "powerup_active ?s4" using p by simp
        with eat have "powerup_active s5"
          by (auto simp: eat_food_def save_high_score_def Let_def split: option.splits if_splits)
        with level_progression_fields(5)[OF lev] s' show ?thesis by auto
      qed
    qed
  qed
  then obtain m where "s' = powerup_countdown m" "powerup_active m" by blast
  with q powerup_countdown_expiry[of m] show "FPS s' = 7" by simp
qed

theorem powerup_expiry_resets_fps_witness:
  "powerup_active expiring_game \<and> powerup_timer expiring_game - 1 \<le> 0 \<and>
   level expiring_game = 3 \<and> FPS expiring_game = 21 / 2 \<and>
   FPS (powerup_countdown expiring_game) = 7 \<and>
   tick expiring_game (keyboard right_keys corner_source False)
     = Some (Inr (expiring_game\<lparr>snake := [(420, 300), (400, 300)], powerup_active := False,
                                  powerup_timer := 0, FPS := 7\<rparr>))"
proof -
  let ?inp = "keyboard right_keys corner_source False"
  let ?s' = "expiring_game\<lparr>snake := [(420, 300), (400, 300)], powerup_active := False,
                            powerup_timer := 0, FPS := 7\<rparr>"
  have t: "tick expiring_game ?inp = Some (Inr ?s')" by code_simp
  have p: "powerup_active expiring_game \<and> powerup_timer expiring_game - 1 \<le> 0"
    by (simp add: expiring_game_def)
  have q: "\<not> powerup_active ?s'" by simp
  from powerup_expiry_resets_fps [of expiring_game expiring_game ?inp ?s'] t p q
  show ?thesis by (simp add: expiring_game_def)
qed

section \<open>The tick: collisions\<close>

lemma tick_game_over_idle: "game_over s \<Longrightarrow> tick s inp = Some (Inr s)"
  by (simp add: tick_def)

text \<open>
  Claim C2, as the code has it. If the snake has no duplicate cell before a tick, the
  power-up is not active, and the tick does not end in game-over, then the snake has no
  duplicate cell after the tick.
\<close>

theorem snake_stays_distinct:
  assumes "tick s inp = Some (Inr s')" and "\<not> game_over s'" and "distinct (snake s)"
    and "\<not> powerup_active s"
  shows "distinct (snake s')"
proof (cases "game_over s")
  case True
  with assms(1,3) show ?thesis by (simp add: tick_game_over_idle)
next
  case False
  show ?thesis
  proof (cases "next_direction s inp = (0, 0)")
    case True
    with assms(1,3) False show ?thesis by (auto simp: tick_unfold)
  next
    case nz: False
    show ?thesis
    proof (cases "snake s")
      case Nil
      with assms(1) False nz show ?thesis by (simp add: tick_unfold)
    next
      case (Cons h tl)
      let ?nh = "advance h (next_direction s inp)"
      let ?s3 = "collide ?nh (steered s inp)"
      let ?s4 = "?s3\<lparr>snake := ?nh # snake s\<rparr>"
      from tick_moving[OF False nz Cons assms(1)] obtain s5 i s6 where
        eat: "eat_food ?nh (cells inp) (power_roll inp) ?s4 = Some (s5, i)" and
        lev: "level_progression (cells inp) i s5 = Some s6" and
        s': "s' = powerup_countdown s6" by blast
      have g5: "game_over s5 = game_over ?s4"
      proof (cases "?nh = food_pos ?s4")
        case True
        from eat_food_eaten(3)[OF True eat] show ?thesis .
      next
        case False
        from eat_food_missed[OF False eat] show ?thesis by simp
      qed
      have "game_over s' = game_over ?s3"
        using s' level_progression_fields(3)[OF lev] g5 by simp
      with assms(2) have "\<not> body_collision s ?nh"
        by (simp add: collide_game_over)
      with assms(4) have "?nh \<notin> set (snake s)" by (simp add: body_collision_def)
      with assms(3) have d4: "distinct (?nh # snake s)" by simp
      have "distinct (snake s5)"
      proof (cases "?nh = food_pos ?s4")
        case True
        from eat_food_eaten(1)[OF True eat] d4 show ?thesis by simp
      next
        case False
        from eat_food_missed[OF False eat] have "snake s5 = butlast (?nh # snake s)" by simp
        with distinct_butlast[OF d4] show ?thesis by simp
      qed
      with level_progression_fields(1)[OF lev] s' show ?thesis by simp
    qed
  qed
qed

theorem snake_stays_distinct_witness:
  "tick cruising_game (keyboard right_keys corner_source False)
     = Some (Inr (cruising_game\<lparr>snake := [(440, 300), (420, 300)]\<rparr>)) \<and>
   \<not> game_over (cruising_game\<lparr>snake := [(440, 300), (420, 300)]\<rparr>) \<and>
   distinct (snake cruising_game) \<and> \<not> powerup_active cruising_game \<and>
   distinct (snake (cruising_game\<lparr>snake := [(440, 300), (420, 300)]\<rparr>))"
proof -
  let ?inp = "keyboard right_keys corner_source False"
  let ?b = "cruising_game\<lparr>snake := [(440, 300), (420, 300)]\<rparr>"
  have t: "tick cruising_game ?inp = Some (Inr ?b)" by code_simp
  have g: "\<not> game_over ?b" by (simp add: cruising_game_def)
  have d: "distinct (snake cruising_game)" by (simp add: cruising_game_def)
  have p: "\<not> powerup_active cruising_game" by (simp add: cruising_game_def)
  from snake_stays_distinct [OF t g d p] t g d p show ?thesis by simp
qed

text \<open>
  Claim C2 as stated fails: in a state reached from the start by six ticks, with the
  power-up active, the head moves onto a body cell; the tick does not end the run and the
  snake then holds that cell twice.
\<close>

theorem powerup_self_crossing:
  "reachable before_crossing \<and>
   tick before_crossing (keyboard up_keys corner_source False) = Some (Inr after_crossing) \<and>
   \<not> game_over after_crossing \<and> \<not> distinct (snake after_crossing)"
proof -
  have t: "tick before_crossing (keyboard up_keys corner_source False) = Some (Inr after_crossing)"
    by code_simp
  have "\<not> game_over after_crossing" "\<not> distinct (snake after_crossing)"
    by (simp_all add: after_crossing_def before_crossing_def)
  with t before_crossing_reachable show ?thesis by simp
qed

text \<open>
  Claim C1, as the code has it. On a tick with a fatal collision the game-over flag is
  set and every later tick leaves the state as it is; the colliding tick itself still
  runs its remaining steps: when the new head is not on the food, the head is prepended
  and the tail removed, the score and the food stay, and the obstacles stay when no
  level-up is due.
\<close>

theorem fatal_collision_ends_run:
  assumes "\<not> game_over s" and "next_direction s inp \<noteq> (0, 0)" and "snake s = h # t"
    and "nh = advance h (next_direction s inp)"
    and "wall_collision nh \<or> body_collision s nh"
    and "tick s inp = Some (Inr s')"
  shows "game_over s' \<and> tick s' inp' = Some (Inr s') \<and>
         (nh \<noteq> food_pos s \<longrightarrow>
            snake s' = nh # butlast (snake s) \<and> score s' = score s \<and>
            food_pos s' = food_pos s \<and>
            (score s div 10 + 1 \<le> level s \<longrightarrow> obstacles s' = obstacles s))"
proof -
  let ?s3 = "collide nh (steered s inp)"
  let ?s4 = "?s3\<lparr>snake := nh # snake s\<rparr>"
  from tick_moving[OF assms(1,2,3,6)] assms(4) obtain s5 i s6 where
    eat: "eat_food nh (cells inp) (power_roll inp) ?s4 = Some (s5, i)" and
    lev: "level_progression (cells inp) i s5 = Some s6" and
    s': "s' = powerup_countdown s6" by blast
  have g4: "game_over ?s4" using assms(5) by (simp add: collide_game_over)
  have g5: "game_over s5"
  proof (cases "nh = food_pos ?s4")
    case True
    from eat_food_eaten(3)[OF True eat] g4 show ?thesis by simp
  next
    case False
    from eat_food_missed[OF False eat] g4 show ?thesis by simp
  qed
  have over: "game_over s'" using s' level_progression_fields(3)[OF lev] g5 by simp
  have rest: "snake s' = nh # butlast (snake s) \<and> score s' = score s \<and>
      food_pos s' = food_pos s \<and>
      (score s div 10 + 1 \<le> level s \<longrightarrow> obstacles s' = obstacles s)"
    if miss: "nh \<noteq> food_pos s"
  proof -
    from miss have "nh \<noteq> food_pos ?s4" by simp
    from eat_food_missed[OF this eat] have s5: "s5 = ?s4\<lparr>snake := butlast (snake ?s4)\<rparr>" .
    then have f5: "snake s5 = nh # butlast (snake s)" "score s5 = score s"
      "food_pos s5 = food_pos s" "level s5 = level s" "obstacles s5 = obstacles s"
      using assms(3) by simp_all
    have "obstacles s' = obstacles s" if "score s div 10 + 1 \<le> level s"
    proof -
      from that f5 have "score s5 div 10 + 1 \<le> level s5" by simp
      from level_progression_idle[OF lev this] s' f5 show ?thesis by simp
    qed
    with level_progression_fields(1,2,4)[OF lev] s' f5 show ?thesis by simp
  qed
  from over rest tick_game_over_idle[OF over] show ?thesis by blast
qed

theorem fatal_collision_ends_run_witness:
  "\<not> game_over at_bottom_wall \<and>
   wall_collision (advance (400, 580) (next_direction at_bottom_wall (keyboard down_keys corner_source False))) \<and>
   tick at_bottom_wall (keyboard down_keys corner_source False) = Some (Inr beyond_wall) \<and>
   game_over beyond_wall \<and>
   tick beyond_wall (keyboard up_keys corner_source False) = Some (Inr beyond_wall) \<and>
   snake beyond_wall = (400, 600) # butlast (snake at_bottom_wall)"
proof -
  let ?inp = "keyboard down_keys corner_source False"
  let ?nh = "advance (400, 580) (next_direction at_bottom_wall ?inp)"
  have n: "next_direction at_bottom_wall ?inp = (0, 1)" by code_simp
  have t: "tick at_bottom_wall ?inp = Some (Inr beyond_wall)" by code_simp
  have g: "\<not> game_over at_bottom_wall" by (simp add: at_bottom_wall_def)
  have z: "next_direction at_bottom_wall ?inp \<noteq> (0, 0)" by (simp add: n)
  have sn: "snake at_bottom_wall = (400, 580) # []" by (simp add: at_bottom_wall_def)
  have a: "?nh = (400, 600)" by (simp add: n advance_def CELL_SIZE_def)
  have w: "wall_collision ?nh" unfolding a by (simp add: wall_collision_def HEIGHT_def)
  have f: "?nh \<noteq> food_pos at_bottom_wall" unfolding a by (simp add: at_bottom_wall_def)
  note r = fatal_collision_ends_run
    [OF g z sn refl disjI1 [OF w] t, of "keyboard up_keys corner_source False"]
  from r have r1: "game_over beyond_wall"
    and r2: "tick beyond_wall (keyboard up_keys corner_source False) = Some (Inr beyond_wall)"
    by blast+
  from r f have "snake beyond_wall = ?nh # butlast (snake at_bottom_wall)" by blast
  then have r3: "snake beyond_wall = (400, 600) # butlast (snake at_bottom_wall)"
    unfolding a .
  from g w t r1 r2 r3 show ?thesis by blast
qed

text \<open>
  Claim C1 as stated fails: in a state reached from the start by fourteen ticks, a snake
  on the bottom row heading down hits the wall, the flag is set, and the snake is
  nevertheless moved onto the cell outside the board.
\<close>

theorem fatal_collision_moves_snake:
  "reachable at_bottom_wall \<and> \<not> game_over at_bottom_wall \<and>
   wall_collision (advance (hd (snake at_bottom_wall))
      (next_direction at_bottom_wall (keyboard down_keys corner_source False))) \<and>
   tick at_bottom_wall (keyboard down_keys corner_source False) = Some (Inr beyond_wall) \<and>
   game_over beyond_wall \<and> snake beyond_wall \<noteq> snake at_bottom_wall"
proof -
  let ?inp = "keyboard down_keys corner_source False"
  have n: "next_direction at_bottom_wall ?inp = (0, 1)" by code_simp
  have t: "tick at_bottom_wall ?inp = Some (Inr beyond_wall)" by code_simp
  have "\<not> game_over at_bottom_wall \<and>
      wall_collision (advance (hd (snake at_bottom_wall)) (next_direction at_bottom_wall ?inp)) \<and>
      game_over beyond_wall \<and> snake beyond_wall \<noteq> snake at_bottom_wall"
    unfolding n
    by (simp add: at_bottom_wall_def beyond_wall_def advance_def wall_collision_def
        HEIGHT_def CELL_SIZE_def)
  with t at_bottom_wall_reachable show ?thesis by simp
qed

section \<open>Level and obstacles: results\<close>

lemma sum_levels_Suc: "1 \<le> l \<Longrightarrow> sum_levels 2 (l + 1) = sum_levels 2 l + (l + 1)"
proof -
  assume "1 \<le> l"
  then have "{2..l + 1} = insert (l + 1) {2..l}" by auto
  then show ?thesis by (simp add: sum_levels_def)
qed

lemma eat_food_level_fields:
  assumes "eat_food nh rng roll s = Some (s', i)"
  shows "level s' = level s" "obstacles s' = obstacles s"
    "score s' = score s \<or> score s' = score s + 1"
  using assms
  by (auto simp: eat_food_def save_high_score_def Let_def split: option.splits if_splits)

lemma level_progression_inv:
  assumes "level_progression rng i s = Some s'"
    and "0 \<le> score s" and "int (length (obstacles s)) = sum_levels 2 (level s)"
    and "level s = score s div 10 + 1 \<or> level s + 1 = score s div 10 + 1"
    and "1 \<le> level s"
  shows "level_inv s' \<and> level s \<le> level s' \<and> level s' \<le> level s + 1 \<and>
         (level s < level s' \<longrightarrow>
            length (obstacles s') = length (obstacles s) + nat (level s'))"
proof (cases "level s < score s div 10 + 1")
  case False
  with assms(4) have eq: "level s = score s div 10 + 1" by simp
  then have "score s div 10 + 1 \<le> level s" by simp
  from level_progression_idle[OF assms(1) this] eq assms(2,3) show ?thesis
    by (simp add: level_inv_def)
next
  case True
  with assms(4) have up: "level s + 1 = score s div 10 + 1" by simp
  note l1 = assms(5)
  from level_progression_obstacles[OF assms(1) True] obtain new where
    new: "obstacles s' = obstacles s @ new" "length new = nat (score s div 10 + 1)" by blast
  from level_progression_fields(2,8)[OF assms(1)] up
  have f: "score s' = score s" "level s' = level s + 1" by simp_all
  have len: "length (obstacles s') = length (obstacles s) + nat (level s')"
    using new f up by simp
  then have "int (length (obstacles s')) = sum_levels 2 (level s) + (level s + 1)"
    using assms(3) f l1 by simp
  then have "int (length (obstacles s')) = sum_levels 2 (level s')"
    using sum_levels_Suc[OF l1] f by simp
  with f up assms(2) len show ?thesis by (simp add: level_inv_def)
qed

lemma tick_level_inv:
  assumes "level_inv s" and "tick s inp = Some (Inr s')"
  shows "level_inv s' \<and> level s \<le> level s' \<and> level s' \<le> level s + 1 \<and>
         (level s < level s' \<longrightarrow>
            length (obstacles s') = length (obstacles s) + nat (level s'))"
proof (cases "game_over s \<or> next_direction s inp = (0, 0)")
  case True
  with assms have "s' = s \<or> s' = powerup_countdown (steered s inp)"
    by (auto simp: tick_unfold split: if_splits)
  with assms(1) show ?thesis by (auto simp: level_inv_def)
next
  case False
  then have g: "\<not> game_over s" and nz: "next_direction s inp \<noteq> (0, 0)" by simp_all
  show ?thesis
  proof (cases "snake s")
    case Nil
    with assms(2) g nz show ?thesis by (simp add: tick_unfold)
  next
    case (Cons h tl)
    let ?nh = "advance h (next_direction s inp)"
    let ?s4 = "(collide ?nh (steered s inp))\<lparr>snake := ?nh # snake s\<rparr>"
    from tick_moving[OF g nz Cons assms(2)] obtain s5 i s6 where
      eat: "eat_food ?nh (cells inp) (power_roll inp) ?s4 = Some (s5, i)" and
      lev: "level_progression (cells inp) i s5 = Some s6" and
      s': "s' = powerup_countdown s6" by blast
    from eat_food_level_fields[OF eat]
    have f5: "level s5 = level s" "obstacles s5 = obstacles s"
      "score s5 = score s \<or> score s5 = score s + 1" by simp_all
    from assms(1) have inv: "0 \<le> score s" "level s = score s div 10 + 1"
      "int (length (obstacles s)) = sum_levels 2 (level s)" by (simp_all add: level_inv_def)
    have a: "0 \<le> score s5" using f5(3) inv(1) by auto
    have b: "int (length (obstacles s5)) = sum_levels 2 (level s5)" using f5 inv(3) by simp
    have c: "level s5 = score s5 div 10 + 1 \<or> level s5 + 1 = score s5 div 10 + 1"
      using f5(1,3) inv(1,2) by auto
    have d: "1 \<le> level s5" using f5(1) inv(1,2) by simp
    from level_progression_inv[OF lev a b c d] f5 s' show ?thesis
      by (simp add: level_inv_def)
  qed
qed

lemma handle_events_fields:
  assumes "handle_events s es = Inr s1"
  shows "\<exists>p g. s1 = s\<lparr>paused := p, show_grid := g\<rparr>"
  using assms
proof (induction s es rule: handle_events.induct)
  case (1 s)
  then have "s1 = s\<lparr>paused := paused s, show_grid := show_grid s\<rparr>" by simp
  then show ?case by blast
next
  case (2 s es)
  then show ?case by simp
next
  case (3 s es)
  then obtain p g where "s1 = s\<lparr>show_grid := \<not> show_grid s\<rparr>\<lparr>paused := p, show_grid := g\<rparr>"
    by auto
  then have "s1 = s\<lparr>paused := p, show_grid := g\<rparr>" by simp
  then show ?case by blast
next
  case (4 s es)
  then obtain p g where "s1 = s\<lparr>paused := \<not> paused s\<rparr>\<lparr>paused := p, show_grid := g\<rparr>"
    by auto
  then have "s1 = s\<lparr>paused := p, show_grid := g\<rparr>" by simp
  then show ?case by blast
next
  case (5 s es)
  then show ?case by simp
next
  case (6 s es)
  then show ?case by simp
qed

lemma restart_level_inv: "restart rng s = Some s' \<Longrightarrow> level_inv s'"
  by (auto simp: restart_def level_inv_def sum_levels_def split: option.splits)

lemma iteration_level_inv:
  assumes "level_inv s" and "iteration s inp = Some (Inr s')"
  shows "level_inv s'"
proof (cases "handle_events s (events inp)")
  case (Inl e)
  with assms(2) show ?thesis by (simp add: iteration_def)
next
  case (Inr s1)
  from handle_events_fields[OF Inr] assms(1) have i1: "level_inv s1"
    by (auto simp: level_inv_def)
  show ?thesis
  proof (cases "paused s1")
    case True
    with assms(2) Inr i1 show ?thesis by (simp add: iteration_def)
  next
    case False
    with assms(2) Inr obtain s2 where t: "tick s1 inp = Some (Inr s2)"
      and r: "s' = s2 \<or> restart (restart_cells inp) s2 = Some s'"
      by (auto simp: iteration_def split: option.splits sum.splits if_splits)
    from tick_level_inv[OF i1 t] have "level_inv s2" by simp
    with r restart_level_inv show ?thesis by auto
  qed
qed

lemma menu_poll_fields: "\<exists>b. fst (menu_poll ser ks s) = s\<lparr>paused := b\<rparr>"
proof (cases "K_SPACE ks")
  case True
  have "\<exists>b. s = s\<lparr>paused := b\<rparr>" by (rule exI[of _ "paused s"]) simp
  with True show ?thesis by (simp add: menu_poll_def)
next
  case False
  with get_direction_paused_only[of ser ks s] show ?thesis
    by (auto simp: menu_poll_def split: prod.splits)
qed

lemma menu_state_level_inv: "menu_state s \<Longrightarrow> level_inv s"
proof (induction rule: menu_state.induct)
  case (boot rng p i hs)
  show ?case by (simp add: level_inv_def new_game_def sum_levels_def)
next
  case (waiting s ser ks s')
  from menu_poll_fields[of ser ks s] waiting(2) obtain b where "s' = s\<lparr>paused := b\<rparr>" by auto
  with waiting(3) show ?case by (simp add: level_inv_def)
qed

lemma reachable_level_inv: "reachable s \<Longrightarrow> level_inv s"
proof (induction rule: reachable.induct)
  case (started s ser ks s')
  from menu_poll_fields[of ser ks s] started(2) obtain b where "s' = s\<lparr>paused := b\<rparr>" by auto
  with menu_state_level_inv[OF started(1)] show ?case by (simp add: level_inv_def)
next
  case (step s inp s')
  from iteration_level_inv[OF step(3) step(2)] show ?case .
qed

lemma run_levels:
  assumes "level_inv s" and "run s inps = Some tr"
  shows "(\<forall>x \<in> set tr. level_inv x) \<and> sorted (map level tr) \<and>
         level (last tr) = level s + int (level_ups tr) \<and>
         (\<forall>i. Suc i < length tr \<and> level (tr ! i) < level (tr ! Suc i) \<longrightarrow>
            length (obstacles (tr ! Suc i)) =
              length (obstacles (tr ! i)) + nat (level (tr ! Suc i)))"
  using assms
proof (induction inps arbitrary: s tr)
  case Nil
  then show ?case by auto
next
  case (Cons inp inps)
  from Cons.prems(2) obtain s' tr' where
    t: "tick s inp = Some (Inr s')" and r: "run s' inps = Some tr'" and tr: "tr = s # tr'"
    by (auto split: option.splits sum.splits)
  from tick_level_inv[OF Cons.prems(1) t] have
    i': "level_inv s'" and mono: "level s \<le> level s'" and one: "level s' \<le> level s + 1" and
    obs: "level s < level s' \<longrightarrow>
            length (obstacles s') = length (obstacles s) + nat (level s')" by simp_all
  from run_nonempty[OF r] obtain rest where tr': "tr' = s' # rest" by (cases tr') auto
  from Cons.IH[OF i' r] have
    a: "\<forall>x \<in> set tr'. level_inv x" and b: "sorted (map level tr')" and
    c: "level (last tr') = level s' + int (level_ups tr')" and
    d: "\<forall>i. Suc i < length tr' \<and> level (tr' ! i) < level (tr' ! Suc i) \<longrightarrow>
            length (obstacles (tr' ! Suc i)) =
              length (obstacles (tr' ! i)) + nat (level (tr' ! Suc i))" by simp_all
  have A: "\<forall>x \<in> set tr. level_inv x" using a Cons.prems(1) tr by simp
  have B: "sorted (map level tr)"
  proof -
    from b tr' have "\<forall>y \<in> set tr'. level s' \<le> level y" by auto
    with mono have "\<forall>y \<in> set tr'. level s \<le> level y" by auto
    with b tr show ?thesis by simp
  qed
  have C: "level (last tr) = level s + int (level_ups tr)"
    using c mono one tr tr' by auto
  have D: "length (obstacles (tr ! Suc i)) =
              length (obstacles (tr ! i)) + nat (level (tr ! Suc i))"
    if "Suc i < length tr \<and> level (tr ! i) < level (tr ! Suc i)" for i
  proof (cases i)
    case 0
    with that obs tr tr' show ?thesis by simp
  next
    case (Suc j)
    with that tr have "Suc j < length tr' \<and> level (tr' ! j) < level (tr' ! Suc j)" by simp
    with d Suc tr show ?thesis by simp
  qed
  from A B C D show ?case by blast
qed

text \<open>
  Claim C7, as the code has it. In every state of a run of ticks from a reachable state,
  the level is \<open>score // 10 + 1\<close> and the obstacle count is the sum of the levels from 2 to
  the current one; the level never decreases along the run and rises by the number of
  level-ups; each level-up appends as many obstacles as the new level. After \<open>N\<close>
  level-ups from level 1 the obstacle count is the sum of the levels \<open>2..N + 1\<close>.
\<close>

theorem level_and_obstacles:
  assumes "reachable s" and "run s inps = Some tr"
  shows "(\<forall>x \<in> set tr. level x = score x div 10 + 1 \<and>
            int (length (obstacles x)) = sum_levels 2 (level x)) \<and>
         sorted (map level tr) \<and>
         level (last tr) = level s + int (level_ups tr) \<and>
         (\<forall>i. Suc i < length tr \<and> level (tr ! i) < level (tr ! Suc i) \<longrightarrow>
            length (obstacles (tr ! Suc i)) =
              length (obstacles (tr ! i)) + nat (level (tr ! Suc i))) \<and>
         (level s = 1 \<longrightarrow>
            int (length (obstacles (last tr))) = sum_levels 2 (int (level_ups tr) + 1))"
proof -
  from reachable_level_inv[OF assms(1)] have "level_inv s" .
  from run_levels[OF this assms(2)] have
    a: "\<forall>x \<in> set tr. level_inv x" and b: "sorted (map level tr)" and
    c: "level (last tr) = level s + int (level_ups tr)" and
    d: "\<forall>i. Suc i < length tr \<and> level (tr ! i) < level (tr ! Suc i) \<longrightarrow>
            length (obstacles (tr ! Suc i)) =
              length (obstacles (tr ! i)) + nat (level (tr ! Suc i))" by simp_all
  from run_nonempty[OF assms(2)] have "last tr \<in> set tr" by simp
  with a have "int (length (obstacles (last tr))) = sum_levels 2 (level (last tr))"
    by (simp add: level_inv_def)
  with c have e: "level s = 1 \<longrightarrow>
      int (length (obstacles (last tr))) = sum_levels 2 (int (level_ups tr) + 1)"
    by (simp add: add.commute)
  from a b c d e show ?thesis by (simp add: level_inv_def)
qed

theorem level_and_obstacles_witness:
  "reachable (new_game (420, 300) 0) \<and>
   run (new_game (420, 300) 0) ten_foods \<noteq> None \<and>
   level_ups (the (run (new_game (420, 300) 0) ten_foods)) = 1 \<and>
   level (last (the (run (new_game (420, 300) 0) ten_foods))) = 2 \<and>
   int (length (obstacles (last (the (run (new_game (420, 300) 0) ten_foods))))) = sum_levels 2 2"
proof -
  have ne: "run (new_game (420, 300) 0) ten_foods \<noteq> None" by code_simp
  then obtain tr where tr: "run (new_game (420, 300) 0) ten_foods = Some tr" by blast
  have "map_option level_ups (run (new_game (420, 300) 0) ten_foods) = Some 1" by code_simp
  with tr have u: "level_ups tr = 1" by simp
  have l: "level (new_game (420, 300) 0) = 1" by (simp add: new_game_def)
  from level_and_obstacles [OF start_reachable tr] l u
  have "level (last tr) = 2" "int (length (obstacles (last tr))) = sum_levels 2 2"
    by simp_all
  with tr u start_reachable show ?thesis by simp
qed

text \<open>
  Claim C7 as stated fails in its obstacle count: after one level-up from level 1 there
  are two obstacles, while the sum of the levels \<open>2..1\<close> is zero.
\<close>

theorem one_level_up_two_obstacles:
  "reachable (new_game (420, 300) 0) \<and> level (new_game (420, 300) 0) = 1 \<and>
   run (new_game (420, 300) 0) ten_foods \<noteq> None \<and>
   level_ups (the (run (new_game (420, 300) 0) ten_foods)) = 1 \<and>
   length (obstacles (last (the (run (new_game (420, 300) 0) ten_foods)))) = 2 \<and>
   sum_levels 2 (int (level_ups (the (run (new_game (420, 300) 0) ten_foods)))) = 0"
proof -
  have ne: "run (new_game (420, 300) 0) ten_foods \<noteq> None" by code_simp
  then obtain tr where tr: "run (new_game (420, 300) 0) ten_foods = Some tr" by blast
  have "map_option level_ups (run (new_game (420, 300) 0) ten_foods) = Some 1" by code_simp
  with tr have u: "level_ups tr = 1" by simp
  have "map_option (\<lambda>tr. length (obstacles (last tr))) (run (new_game (420, 300) 0) ten_foods)
      = Some 2" by code_simp
  with tr have n: "length (obstacles (last tr)) = 2" by simp
  have l: "level (new_game (420, 300) 0) = 1" by (simp add: new_game_def)
  have z: "sum_levels 2 (int 1) = 0" by (simp add: sum_levels_def)
  from tr u n l z start_reachable show ?thesis by simp
qed

section \<open>Restart\<close>

lemma level2_crash_reachable: "reachable level2_crash"
proof -
  have "map_option last (run (new_game (420, 300) 0) into_the_wall) = Some level2_crash"
    by code_simp
  moreover have "\<forall>inp \<in> set into_the_wall. events inp = [] \<and> ser_read inp = None \<and>
             \<not> K_p (keys inp) \<and> \<not> K_r (keys inp)"
    by (auto simp: into_the_wall_def ten_foods_def keyboard_plain arrow_keys_plain)
  ultimately show ?thesis
    using start_reachable new_game_unpaused by (rule run_last_reachable[rotated 3])
qed

lemma paused_crash_reachable: "reachable paused_crash"
proof -
  have "iteration level2_crash pause_event = Some (Inr paused_crash)" by code_simp
  with level2_crash_reachable show ?thesis by (rule reachable.step)
qed

text \<open>
  Claim C9, as the code has it. In an iteration that starts in game-over with the restart
  key held: if the game is paused once the events are handled, the iteration leaves the
  state as the events left it and nothing is reset; if it is not paused, the run is
  re-initialised (snake of length one at the centre, no direction, score 0, level 1, no
  obstacles, power-up inactive, base tick rate, normal food) and the high score is kept,
  the iteration returning as soon as some draw is not the centre cell.
\<close>

theorem restart_resets_run:
  assumes "game_over s" and "handle_events s (events inp) = Inr s1" and "K_r (keys inp)"
  shows "(paused s1 \<longrightarrow> iteration s inp = Some (Inr s1)) \<and>
         (\<not> paused s1 \<and>
          (\<exists>k. drawn_cell (restart_cells inp) k \<noteq> (WIDTH div 2, HEIGHT div 2)) \<longrightarrow>
          (\<exists>s'. iteration s inp = Some (Inr s') \<and>
             snake s' = [(WIDTH div 2, HEIGHT div 2)] \<and> direction s' = (0, 0) \<and>
             score s' = 0 \<and> level s' = 1 \<and> obstacles s' = [] \<and> \<not> powerup_active s' \<and>
             FPS s' = 7 \<and> \<not> game_over s' \<and> food_type s' = Normal \<and>
             high_score s' = high_score s))"
proof (intro conjI impI)
  assume "paused s1"
  with assms(2) show "iteration s inp = Some (Inr s1)" by (simp add: iteration_def)
next
  assume a: "\<not> paused s1 \<and>
    (\<exists>k. drawn_cell (restart_cells inp) k \<noteq> (WIDTH div 2, HEIGHT div 2))"
  from handle_events_fields[OF assms(2)] obtain p g where
    s1: "s1 = s\<lparr>paused := p, show_grid := g\<rparr>" by blast
  with assms(1) have g1: "game_over s1" and h1: "high_score s1 = high_score s" by simp_all
  from tick_game_over_idle[OF g1] have t: "tick s1 inp = Some (Inr s1)" .
  from a obtain k where
    "free_cell [(WIDTH div 2, HEIGHT div 2)] [] (drawn_cell (restart_cells inp) k)"
    by (auto simp: free_cell_def)
  from rfp_returns[OF le0 this] obtain j where
    "random_food_position [(WIDTH div 2, HEIGHT div 2)] [] (restart_cells inp) 0
       = Some (drawn_cell (restart_cells inp) j, Suc j)" by blast
  then obtain s' where r: "restart (restart_cells inp) s1 = Some s'" and
    f: "snake s' = [(WIDTH div 2, HEIGHT div 2)]" "direction s' = (0, 0)" "score s' = 0"
       "level s' = 1" "obstacles s' = []" "\<not> powerup_active s'" "FPS s' = 7"
       "\<not> game_over s'" "food_type s' = Normal" "high_score s' = high_score s1"
    by (simp add: restart_def)
  have "iteration s inp = Some (Inr s')"
    using assms(2,3) a t g1 r by (simp add: iteration_def)
  with f h1 show "\<exists>s'. iteration s inp = Some (Inr s') \<and>
             snake s' = [(WIDTH div 2, HEIGHT div 2)] \<and> direction s' = (0, 0) \<and>
             score s' = 0 \<and> level s' = 1 \<and> obstacles s' = [] \<and> \<not> powerup_active s' \<and>
             FPS s' = 7 \<and> \<not> game_over s' \<and> food_type s' = Normal \<and>
             high_score s' = high_score s" by simp
qed

theorem restart_resets_run_witness:
  "game_over level2_crash \<and> \<not> paused level2_crash \<and> K_r restart_keys \<and>
   iteration level2_crash (keyboard restart_keys corner_source False)
     = Some (Inr (new_game (0, 0) 10)) \<and>
   high_score level2_crash = 10 \<and>
   game_over paused_crash \<and> paused paused_crash \<and>
   iteration paused_crash (keyboard restart_keys corner_source False) = Some (Inr paused_crash)"
proof -
  let ?inp = "keyboard restart_keys corner_source False"
  have g: "game_over level2_crash" by (simp add: level2_crash_def)
  have e: "handle_events level2_crash (events ?inp) = Inr level2_crash"
    by (simp add: keyboard_def)
  have p: "\<not> paused level2_crash" by (simp add: level2_crash_def)
  have k: "K_r (keys ?inp)" by (simp add: keyboard_def restart_keys_def no_keys_def)
  have d: "\<exists>k. drawn_cell (restart_cells ?inp) k \<noteq> (WIDTH div 2, HEIGHT div 2)"
    by (rule exI[of _ 0])
      (simp add: keyboard_def drawn_cell_def corner_source_def WIDTH_def HEIGHT_def)
  have g': "game_over paused_crash" by (simp add: paused_crash_def level2_crash_def)
  have e': "handle_events paused_crash (events ?inp) = Inr paused_crash"
    by (simp add: keyboard_def)
  have p': "paused paused_crash" by (simp add: paused_crash_def)
  from restart_resets_run [OF g e k] p d obtain s' where
    "iteration level2_crash ?inp = Some (Inr s')" "high_score s' = high_score level2_crash"
    by blast
  moreover have "iteration level2_crash ?inp = Some (Inr (new_game (0, 0) 10))"
    by code_simp
  moreover from restart_resets_run [OF g' e' k] p'
  have "iteration paused_crash ?inp = Some (Inr paused_crash)" by blast
  ultimately show ?thesis using g p g' p'
    by (simp add: level2_crash_def restart_keys_def no_keys_def)
qed

text \<open>
  Claim C9 as stated fails: in a reachable state that is game-over and paused (ten foods
  eaten, then the right wall, then the pause key), an iteration with the restart key held
  changes nothing: the score stays 10, the level 2, the two obstacles and the snake stay.
\<close>

theorem paused_restart_ignored:
  "reachable paused_crash \<and> game_over paused_crash \<and>
   K_r (keys (keyboard restart_keys corner_source False)) \<and>
   iteration paused_crash (keyboard restart_keys corner_source False) = Some (Inr paused_crash) \<and>
   score paused_crash = 10 \<and> level paused_crash = 2 \<and>
   obstacles paused_crash = [(20, 0), (40, 0)] \<and> length (snake paused_crash) = 11"
proof -
  have "iteration paused_crash (keyboard restart_keys corner_source False)
      = Some (Inr paused_crash)" by code_simp
  with paused_crash_reachable show ?thesis
    by (simp add: paused_crash_def level2_crash_def keyboard_def restart_keys_def no_keys_def)
qed

end
